theory Spec2Isabelle
  imports Main "HOL-Library.Sublist"
begin

section \<open>The script \<open>fix_orders.py\<close>\<close>

text \<open>
  The script reads a file as a list of lines, rewrites the list in one forward pass with a
  cursor \<open>i\<close>, and writes the new list over the same file. The pass copies lines to
  \<open>new_lines\<close> until it meets a line containing \<open>router.get('/',\<close> whose preceding
  line contains \<open>Get all orders\<close>. At the first such line it appends a fixed block of 29
  lines and moves the cursor past the next line containing \<open>.toArray();\<close>; at every later
  one it appends nothing and moves the cursor past the next line containing \<open>});\<close>.

  The literals are written into the script. The loop is embedded once, over a record of the
  four line tests and the inserted block, and the script is its instance at the literals of
  the source (\<open>fix_orders\<close> below).
\<close>

subsection \<open>Lines and line tests\<close>

text \<open>A line is a string that keeps its terminator, as \<open>readlines()\<close> returns it.\<close>

type_synonym line = string

text \<open>Python's \<open>s.startswith(p)\<close>.\<close>

fun starts_with :: "string \<Rightarrow> string \<Rightarrow> bool" where
  "starts_with [] s = True"
| "starts_with (p # ps) [] = False"
| "starts_with (p # ps) (c # cs) = (p = c \<and> starts_with ps cs)"

text \<open>Python's \<open>sub in s\<close> on strings: \<open>sub\<close> occurs in \<open>s\<close> as a contiguous run.\<close>

fun substring_in :: "string \<Rightarrow> string \<Rightarrow> bool" where
  "substring_in sub [] = (sub = [])"
| "substring_in sub (c # cs) = (starts_with sub (c # cs) \<or> substring_in sub cs)"

text \<open>
  Python's \<open>xs[k]\<close>: a negative index counts from the end, and an index outside
  \<open>-len(xs) .. len(xs) - 1\<close> raises IndexError (\<open>None\<close> here).
\<close>

definition py_index :: "'a list \<Rightarrow> int \<Rightarrow> 'a option" where
  "py_index xs k =
     (let n = int (length xs); j = (if k < 0 then n + k else k)
      in if 0 \<le> j \<and> j < n then Some (xs ! nat j) else None)"

text \<open>
  \<open>lines[i-1]\<close> of line 17. The loop body runs only while \<open>i < len(lines)\<close>, where the
  index \<open>i - 1\<close> is at least \<open>-1\<close> and the list is not empty, so the read never raises:
  at \<open>i = 0\<close> it is \<open>lines[-1]\<close>, the last line of the file.
\<close>

definition prev_line :: "line list \<Rightarrow> nat \<Rightarrow> line" where
  "prev_line lines i = (if i = 0 then lines ! (length lines - 1) else lines ! (i - 1))"

subsection \<open>Parameters and state\<close>

record patterns =
  is_marker :: "line \<Rightarrow> bool"
  is_signature :: "line \<Rightarrow> bool"
  ends_first :: "line \<Rightarrow> bool"
  ends_rest :: "line \<Rightarrow> bool"
  template :: "line list"

text \<open>
  The variables of the loop. The cursor \<open>i\<close> of the source is the field \<open>idx\<close>. The source
  also sets \<open>skip_until_end_of_route = False\<close> and never reads it; it is left out.
\<close>

record state =
  new_lines :: "line list"
  found_first_route :: bool
  idx :: nat

definition init :: state where
  "init = \<lparr>new_lines = [], found_first_route = False, idx = 0\<rparr>"

subsection \<open>The scan\<close>

text \<open>The condition of line 17: \<open>SIG in line and MARKER in lines[i-1]\<close>.\<close>

definition anchor_at :: "patterns \<Rightarrow> line list \<Rightarrow> nat \<Rightarrow> bool" where
  "anchor_at P lines i \<longleftrightarrow> is_signature P (lines ! i) \<and> is_marker P (prev_line lines i)"

text \<open>
  The inner loops of lines 54-55 and 61-62:
  \<open>while i < len(lines) and T not in lines[i]: i += 1\<close>. The result is the cursor when the
  loop stops: the first position from \<open>i\<close> on whose line passes the test, or
  \<open>len(lines)\<close> when there is none.
\<close>

function skip_to :: "(line \<Rightarrow> bool) \<Rightarrow> line list \<Rightarrow> nat \<Rightarrow> nat" where
  "skip_to t lines i = (if i < length lines \<and> \<not> t (lines ! i) then skip_to t lines (i + 1) else i)"
  by pat_completeness auto
termination
  by (relation "measure (\<lambda>(t, lines, i). length lines - i)") auto

declare skip_to.simps [simp del]

text \<open>One run of the body of the outer loop (lines 14-67), entered with \<open>i < len(lines)\<close>.\<close>

definition loop_body :: "patterns \<Rightarrow> line list \<Rightarrow> state \<Rightarrow> state" where
  "loop_body P lines s =
     (let line = lines ! idx s in
      if anchor_at P lines (idx s) then
        if \<not> found_first_route s then
          s\<lparr>found_first_route := True,
            new_lines := new_lines s @ template P,
            idx := skip_to (ends_first P) lines (idx s) + 1\<rparr>
        else
          s\<lparr>idx := skip_to (ends_rest P) lines (idx s) + 1\<rparr>
      else
        s\<lparr>new_lines := new_lines s @ [line], idx := idx s + 1\<rparr>)"

text \<open>The outer loop of line 13: \<open>while i < len(lines): body\<close>.\<close>

function scan_loop :: "patterns \<Rightarrow> line list \<Rightarrow> state \<Rightarrow> state" where
  "scan_loop P lines s =
     (if idx s < length lines then scan_loop P lines (loop_body P lines s) else s)"
  by pat_completeness auto
termination
proof (relation "measure (\<lambda>(P, lines, s). length lines - idx s)")
  show "wf (measure (\<lambda>(P, lines, s). length lines - idx s))" by simp
next
  fix P :: patterns and lines :: "line list" and s :: state
  assume less: "idx s < length lines"
  have ge: "i \<le> skip_to t lines i" for t i
  proof (induction t lines i rule: skip_to.induct)
    case (1 t lines i)
    show ?case
    proof (cases "i < length lines \<and> \<not> t (lines ! i)")
      case True
      with 1 have "i + 1 \<le> skip_to t lines (i + 1)" by simp
      moreover from True have "skip_to t lines i = skip_to t lines (i + 1)"
        by (subst skip_to.simps) simp
      ultimately show ?thesis by simp
    next
      case False
      then have "skip_to t lines i = i" by (subst skip_to.simps) auto
      then show ?thesis by simp
    qed
  qed
  have "idx s < idx (loop_body P lines s)"
    using ge [of "idx s" "ends_first P"] ge [of "idx s" "ends_rest P"]
    by (simp add: loop_body_def Let_def)
  with less show "((P, lines, loop_body P lines s), (P, lines, s))
          \<in> measure (\<lambda>(P, lines, s). length lines - idx s)"
    by simp
qed

declare scan_loop.simps [simp del]

text \<open>Lines 8-67: the list handed to \<open>writelines\<close>.\<close>

definition patch :: "patterns \<Rightarrow> line list \<Rightarrow> line list" where
  "patch P lines = new_lines (scan_loop P lines init)"

subsection \<open>The literals of the script\<close>

definition marker_text :: string where
  "marker_text = ''Get all orders''"

definition signature_text :: string where
  "signature_text = ''router.get('/',''"

definition first_end_text :: string where
  "first_end_text = ''.toArray();''"

definition rest_end_text :: string where
  "rest_end_text = ''});''"

text \<open>The 29 lines appended by lines 21-49.\<close>

definition filtered_route :: "line list" where
  "filtered_route =
    [''// GET /api/orders - Get all orders with optional date filtering\<newline>'',
     ''router.get('/', async (req, res) => {\<newline>'',
     ''  try {\<newline>'',
     ''    const { startDate, endDate } = req.query;\<newline>'',
     ''    const db = await getMongoDb();\<newline>'',
     ''\<newline>'',
     ''    // Prepare filter query\<newline>'',
     ''    const query: any = {};\<newline>'',
     ''    if (startDate || endDate) {\<newline>'',
     ''      query.createdAt = {};\<newline>'',
     ''      if (startDate) {\<newline>'',
     ''        const start = new Date(startDate as string);\<newline>'',
     ''        if (!isNaN(start.getTime())) query.createdAt.$gte = start;\<newline>'',
     ''      }\<newline>'',
     ''      if (endDate) {\<newline>'',
     ''        const end = new Date(endDate as string);\<newline>'',
     ''        if (!isNaN(end.getTime())) {\<newline>'',
     ''          const endOfDay = new Date(end);\<newline>'',
     ''          endOfDay.setHours(23, 59, 59, 999);\<newline>'',
     ''          query.createdAt.$lte = endOfDay;\<newline>'',
     ''        }\<newline>'',
     ''      }\<newline>'',
     ''    }\<newline>'',
     ''\<newline>'',
     ''    // Fetch orders\<newline>'',
     ''    const orders = await db.collection('orders')\<newline>'',
     ''      .find(query)\<newline>'',
     ''      .sort({ createdAt: -1 })\<newline>'',
     ''      .toArray();\<newline>'']"

definition script_patterns :: patterns where
  "script_patterns =
     \<lparr>is_marker = substring_in marker_text,
      is_signature = substring_in signature_text,
      ends_first = substring_in first_end_text,
      ends_rest = substring_in rest_end_text,
      template = filtered_route\<rparr>"

definition fix_orders :: "line list \<Rightarrow> line list" where
  "fix_orders lines = patch script_patterns lines"

section \<open>Vocabulary of the properties\<close>

subsection \<open>Matched blocks\<close>

text \<open>
  The blocks the scan matches, in scan order, as pairs \<open>(s, e)\<close>: \<open>s\<close> is the cursor at
  which the test of line 17 holds when the scan is there, and \<open>e\<close> is the cursor at which
  the inner loop of that branch stops, so that the scan resumes at \<open>e + 1\<close>. The flag is
  \<open>found_first_route\<close>. When the inner loop finds no line, \<open>e\<close> is \<open>len(lines)\<close>.
  This follows the control flow of \<open>loop_body\<close> and records only the cursors: one run of
  the body at an anchor adds the pair of the cursor before it and the cursor after it less
  one, and any other run adds nothing (\<open>blocks_loop_body\<close> below).
\<close>

function blocks :: "patterns \<Rightarrow> line list \<Rightarrow> nat \<Rightarrow> bool \<Rightarrow> (nat \<times> nat) list" where
  "blocks P lines i found =
     (if i < length lines then
        if anchor_at P lines i then
          (let j = skip_to (if found then ends_rest P else ends_first P) lines i
           in (i, j) # blocks P lines (j + 1) True)
        else blocks P lines (i + 1) found
      else [])"
  by pat_completeness auto
termination
proof (relation "measure (\<lambda>(P, lines, i, found). length lines - i)")
  show "wf (measure (\<lambda>(P, lines, i, found). length lines - i))" by simp
next
  fix P :: patterns and lines :: "line list" and i :: nat and found :: bool and j :: nat
  assume less: "i < length lines"
    and j: "j = skip_to (if found then ends_rest P else ends_first P) lines i"
  have ge: "i \<le> skip_to t lines i" for t i
  proof (induction t lines i rule: skip_to.induct)
    case (1 t lines i)
    show ?case
    proof (cases "i < length lines \<and> \<not> t (lines ! i)")
      case True
      with 1 have "i + 1 \<le> skip_to t lines (i + 1)" by simp
      moreover from True have "skip_to t lines i = skip_to t lines (i + 1)"
        by (subst skip_to.simps) simp
      ultimately show ?thesis by simp
    next
      case False
      then have "skip_to t lines i = i" by (subst skip_to.simps) auto
      then show ?thesis by simp
    qed
  qed
  from ge [of i "if found then ends_rest P else ends_first P"] j less
  show "((P, lines, j + 1, True), (P, lines, i, found))
          \<in> measure (\<lambda>(P, lines, i, found). length lines - i)"
    by simp
next
  fix P :: patterns and lines :: "line list" and i :: nat and found :: bool
  assume "i < length lines"
  then show "((P, lines, i + 1, found), (P, lines, i, found))
          \<in> measure (\<lambda>(P, lines, i, found). length lines - i)"
    by simp
qed

declare blocks.simps [simp del]

text \<open>The lines from position \<open>k\<close> on that lie in none of the blocks, the blocks in order.\<close>

fun gaps :: "line list \<Rightarrow> nat \<Rightarrow> (nat \<times> nat) list \<Rightarrow> line list" where
  "gaps lines k [] = drop k lines"
| "gaps lines k ((s, e) # bs) = take (s - k) (drop k lines) @ gaps lines (e + 1) bs"

text \<open>The blocks lie one after the other, from position \<open>k\<close> on.\<close>

fun ordered_from :: "nat \<Rightarrow> (nat \<times> nat) list \<Rightarrow> bool" where
  "ordered_from k [] = True"
| "ordered_from k ((s, e) # bs) = (k \<le> s \<and> s \<le> e \<and> ordered_from (e + 1) bs)"


text \<open>
  Cursor \<open>e\<close> is the first position from \<open>s\<close> on whose line passes the test \<open>t\<close>, or
  \<open>len(lines)\<close> when no line from \<open>s\<close> on passes it.
\<close>

definition first_from :: "(line \<Rightarrow> bool) \<Rightarrow> line list \<Rightarrow> nat \<Rightarrow> nat \<Rightarrow> bool" where
  "first_from t lines s e \<longleftrightarrow>
     s \<le> e \<and> e \<le> length lines \<and> (e < length lines \<longrightarrow> t (lines ! e)) \<and>
     (\<forall>j \<in> {s..<e}. \<not> t (lines ! j))"

subsection \<open>Iterations of the outer loop\<close>

text \<open>
  The outer loop leaves after exactly \<open>k\<close> runs of its body: the loop condition holds
  before each of the first \<open>k\<close> runs and fails after the last.
\<close>

definition exits_after :: "patterns \<Rightarrow> line list \<Rightarrow> nat \<Rightarrow> bool" where
  "exits_after P lines k \<longleftrightarrow>
     length lines \<le> idx ((loop_body P lines ^^ k) init) \<and>
     (\<forall>m \<in> {..<k}. idx ((loop_body P lines ^^ m) init) < length lines)"

subsection \<open>Reading and writing the file\<close>




subsection \<open>Example inputs\<close>

text \<open>The parameters and the lines of the scenario of the specification.\<close>

definition scenario_patterns :: patterns where
  "scenario_patterns =
     \<lparr>is_marker = (\<lambda>l. l = ''// marker\<newline>''),
      is_signature = starts_with ''sig('',
      ends_first = (\<lambda>l. l = ''end\<newline>''),
      ends_rest = (\<lambda>l. l = ''end\<newline>''),
      template = [''T1\<newline>'', ''T2\<newline>'']\<rparr>"

definition scenario_lines :: "line list" where
  "scenario_lines =
     [''X\<newline>'', ''// marker\<newline>'', ''sig(\<newline>'', ''A\<newline>'', ''end\<newline>'',
      ''// marker\<newline>'', ''sig(\<newline>'', ''B\<newline>'', ''end\<newline>'', ''Y\<newline>'']"

text \<open>A route that is never closed by a line containing \<open>.toArray();\<close>.\<close>

definition unresolved_file :: "line list" where
  "unresolved_file =
     [''x\<newline>'',
      ''// Get all orders\<newline>'',
      ''router.get('/', async (req, res) => {\<newline>'',
      ''a\<newline>'',
      ''b\<newline>'']"

text \<open>One route, closed.\<close>

definition single_route_file :: "line list" where
  "single_route_file =
     [''x\<newline>'',
      ''// Get all orders\<newline>'',
      ''router.get('/', async (req, res) => {\<newline>'',
      ''  .toArray();\<newline>'',
      ''y\<newline>'']"

text \<open>
  Two routes. Both kinds of closing line occur in both, in opposite order: lines 3 and 8
  are equal, and so are lines 4 and 7.
\<close>

definition two_route_file :: "line list" where
  "two_route_file =
     [''x\<newline>'',
      ''// Get all orders\<newline>'',
      ''router.get('/', async (req, res) => {\<newline>'',
      ''});\<newline>'',
      ''  .toArray();\<newline>'',
      ''// Get all orders\<newline>'',
      ''router.get('/', async (req, res) => {\<newline>'',
      ''  .toArray();\<newline>'',
      ''});\<newline>'',
      ''y\<newline>'']"

text \<open>The shortest file with a closed route.\<close>

definition short_file :: "line list" where
  "short_file =
     [''// Get all orders\<newline>'',
      ''router.get('/', async (req, res) => {\<newline>'',
      ''  .toArray();\<newline>'']"

text \<open>
  Files in which no line containing \<open>Get all orders\<close> is followed by a line containing
  \<open>router.get('/',\<close>: the comment is the last line, and the route is the first.
\<close>

definition trailing_comment_file :: "line list" where
  "trailing_comment_file =
     [''router.get('/', (req, res) => {\<newline>'',
      ''  x.toArray();\<newline>'',
      ''// Get all orders\<newline>'']"

definition route_then_comment_file :: "line list" where
  "route_then_comment_file =
     [''router.get('/', h).toArray();\<newline>'',
      ''// Get all orders\<newline>'']"

section \<open>Properties of the scan\<close>

subsection \<open>The reads of the loop are in range\<close>

lemma reads_in_range:
  assumes "i < length lines"
  shows "py_index lines (int i) = Some (lines ! i)"
    and "py_index lines (int i - 1) = Some (prev_line lines i)"
proof -
  show "py_index lines (int i) = Some (lines ! i)"
    using assms by (simp add: py_index_def)
  show "py_index lines (int i - 1) = Some (prev_line lines i)"
  proof (cases "i = 0")
    case True
    with assms show ?thesis
      by (simp add: py_index_def prev_line_def Let_def nat_diff_distrib')
  next
    case False
    with assms show ?thesis
      by (simp add: py_index_def prev_line_def Let_def nat_diff_distrib')
  qed
qed

subsection \<open>The inner loop\<close>

lemma skip_to_ge: "i \<le> skip_to t lines i"
proof (induction t lines i rule: skip_to.induct)
  case (1 t lines i)
  show ?case
  proof (cases "i < length lines \<and> \<not> t (lines ! i)")
    case True
    with 1 have "i + 1 \<le> skip_to t lines (i + 1)" by simp
    moreover from True have "skip_to t lines i = skip_to t lines (i + 1)"
      by (subst skip_to.simps) simp
    ultimately show ?thesis by simp
  next
    case False
    then have "skip_to t lines i = i" by (subst skip_to.simps) auto
    then show ?thesis by simp
  qed
qed

lemma skip_to_stop: "\<not> (i < length lines \<and> \<not> t (lines ! i)) \<Longrightarrow> skip_to t lines i = i"
  by (subst skip_to.simps) auto

lemma skip_to_step: "i < length lines \<Longrightarrow> \<not> t (lines ! i) \<Longrightarrow> skip_to t lines i = skip_to t lines (i + 1)"
  by (subst skip_to.simps) simp

lemma skip_to_le: "i \<le> length lines \<Longrightarrow> skip_to t lines i \<le> length lines"
proof (induction t lines i rule: skip_to.induct)
  case (1 t lines i)
  show ?case
  proof (cases "i < length lines \<and> \<not> t (lines ! i)")
    case True
    with 1 show ?thesis by (simp add: skip_to_step)
  next
    case False
    with 1 show ?thesis by (simp add: skip_to_stop)
  qed
qed

lemma skip_to_hit: "skip_to t lines i < length lines \<Longrightarrow> t (lines ! skip_to t lines i)"
proof (induction t lines i rule: skip_to.induct)
  case (1 t lines i)
  show ?case
  proof (cases "i < length lines \<and> \<not> t (lines ! i)")
    case True
    with 1 show ?thesis by (simp add: skip_to_step)
  next
    case False
    with 1 show ?thesis by (auto simp add: skip_to_stop)
  qed
qed

lemma skip_to_before: "i \<le> j \<Longrightarrow> j < skip_to t lines i \<Longrightarrow> \<not> t (lines ! j) \<and> j < length lines"
proof (induction t lines i rule: skip_to.induct)
  case (1 t lines i)
  show ?case
  proof (cases "i < length lines \<and> \<not> t (lines ! i)")
    case True
    show ?thesis
    proof (cases "i = j")
      case True
      with \<open>i < length lines \<and> \<not> t (lines ! i)\<close> show ?thesis by simp
    next
      case False
      with 1 True show ?thesis by (simp add: skip_to_step)
    qed
  next
    case False
    with 1 show ?thesis by (simp add: skip_to_stop)
  qed
qed

lemma skip_to_first:
  "i \<le> j \<Longrightarrow> j < length lines \<Longrightarrow> t (lines ! j) \<Longrightarrow> (\<forall>k. i \<le> k \<and> k < j \<longrightarrow> \<not> t (lines ! k))
     \<Longrightarrow> skip_to t lines i = j"
proof -
  assume a: "i \<le> j" "j < length lines" "t (lines ! j)" "\<forall>k. i \<le> k \<and> k < j \<longrightarrow> \<not> t (lines ! k)"
  have "\<not> j < skip_to t lines i" using skip_to_before [of i j t lines] a by blast
  moreover have "\<not> skip_to t lines i < j"
  proof
    assume l: "skip_to t lines i < j"
    then have "t (lines ! skip_to t lines i)" using skip_to_hit [of t lines i] a by simp
    with a l skip_to_ge [of i t lines] show False by blast
  qed
  ultimately show ?thesis by simp
qed

lemma skip_to_none:
  "i \<le> length lines \<Longrightarrow> (\<forall>k. i \<le> k \<and> k < length lines \<longrightarrow> \<not> t (lines ! k))
     \<Longrightarrow> skip_to t lines i = length lines"
  using skip_to_hit [of t lines i] skip_to_ge [of i t lines] skip_to_le [of i lines t]
  by (metis le_neq_implies_less)

lemma skip_to_first_from: "i \<le> length lines \<Longrightarrow> first_from t lines i (skip_to t lines i)"
  unfolding first_from_def
  using skip_to_ge [of i t lines] skip_to_le [of i lines t] skip_to_hit [of t lines i]
    skip_to_before [of i _ t lines]
  by auto

subsection \<open>The outer loop and the blocks it matches\<close>

lemma idx_loop_body: "idx s < idx (loop_body P lines s)"
  using skip_to_ge [of "idx s" "ends_first P" lines] skip_to_ge [of "idx s" "ends_rest P" lines]
  by (simp add: loop_body_def Let_def)

lemma scan_loop_done: "length lines \<le> idx s \<Longrightarrow> scan_loop P lines s = s"
  by (subst scan_loop.simps) simp

lemma scan_loop_step:
  "idx s < length lines \<Longrightarrow> scan_loop P lines s = scan_loop P lines (loop_body P lines s)"
  by (subst scan_loop.simps) simp

lemma blocks_done: "length lines \<le> i \<Longrightarrow> blocks P lines i found = []"
  by (subst blocks.simps) simp

lemma blocks_copy:
  "i < length lines \<Longrightarrow> \<not> anchor_at P lines i \<Longrightarrow> blocks P lines i found = blocks P lines (i + 1) found"
  by (subst blocks.simps) simp

lemma blocks_anchor:
  "i < length lines \<Longrightarrow> anchor_at P lines i \<Longrightarrow>
   blocks P lines i found =
     (i, skip_to (if found then ends_rest P else ends_first P) lines i)
       # blocks P lines (skip_to (if found then ends_rest P else ends_first P) lines i + 1) True"
  by (subst blocks.simps) (simp add: Let_def)

lemma blocks_loop_body:
  assumes "idx s < length lines"
  shows "blocks P lines (idx s) (found_first_route s) =
           (if anchor_at P lines (idx s) then [(idx s, idx (loop_body P lines s) - 1)] else []) @
           blocks P lines (idx (loop_body P lines s)) (found_first_route (loop_body P lines s))"
proof (cases "anchor_at P lines (idx s)")
  case True
  with assms show ?thesis
    by (cases "found_first_route s") (simp_all add: loop_body_def blocks_anchor)
next
  case False
  with assms show ?thesis
    by (simp add: loop_body_def blocks_copy)
qed

lemma ordered_from_mono: "ordered_from k bs \<Longrightarrow> k' \<le> k \<Longrightarrow> ordered_from k' bs"
  by (cases bs) auto

lemma blocks_ordered: "ordered_from i (blocks P lines i found)"
proof (induction P lines i found rule: blocks.induct)
  case (1 P lines i found)
  show ?case
  proof (cases "i < length lines")
    case False
    then show ?thesis by (simp add: blocks_done)
  next
    case in_range: True
    show ?thesis
    proof (cases "anchor_at P lines i")
      case True
      with 1(1) [OF in_range True refl] in_range show ?thesis
        by (simp add: blocks_anchor skip_to_ge)
    next
      case False
      with 1(2) [OF in_range False] in_range show ?thesis
        by (simp add: blocks_copy ordered_from_mono)
    qed
  qed
qed

lemma blocks_start: "b \<in> set (blocks P lines i found) \<Longrightarrow> fst b < length lines"
proof (induction P lines i found rule: blocks.induct)
  case (1 P lines i found)
  show ?case
  proof (cases "i < length lines")
    case False
    with "1.prems" show ?thesis by (simp add: blocks_done)
  next
    case in_range: True
    show ?thesis
    proof (cases "anchor_at P lines i")
      case True
      with "1.IH"(1) [OF in_range True refl] "1.prems" in_range show ?thesis
        by (auto simp add: blocks_anchor)
    next
      case False
      with "1.IH"(2) [OF in_range False] "1.prems" in_range show ?thesis
        by (simp add: blocks_copy)
    qed
  qed
qed

lemma blocks_skip:
  "i \<le> m \<Longrightarrow> m \<le> length lines \<Longrightarrow> (\<forall>k. i \<le> k \<and> k < m \<longrightarrow> \<not> anchor_at P lines k) \<Longrightarrow>
   blocks P lines i found = blocks P lines m found"
proof (induction "m - i" arbitrary: i)
  case 0
  then show ?case by simp
next
  case (Suc d)
  then have i: "i < m" "i < length lines" "\<not> anchor_at P lines i" by auto
  from Suc have "blocks P lines (i + 1) found = blocks P lines m found" by auto
  with i show ?case by (simp add: blocks_copy)
qed

lemma blocks_first:
  assumes "a < length lines" "anchor_at P lines a" "\<forall>k < a. \<not> anchor_at P lines k"
  shows "blocks P lines 0 False =
           (a, skip_to (ends_first P) lines a) # blocks P lines (skip_to (ends_first P) lines a + 1) True"
proof -
  have "blocks P lines 0 False = blocks P lines a False"
    using assms(1,3) blocks_skip [of 0 a lines P False] by simp
  then show ?thesis using assms(1,2) by (simp add: blocks_anchor)
qed

lemma blocks_rest_first_from:
  "b \<in> set (blocks P lines i True) \<Longrightarrow> first_from (ends_rest P) lines (fst b) (snd b)"
proof (induction P lines i "True" rule: blocks.induct)
  case (1 P lines i)
  show ?case
  proof (cases "i < length lines")
    case False
    with "1.prems" show ?thesis by (simp add: blocks_done)
  next
    case in_range: True
    show ?thesis
    proof (cases "anchor_at P lines i")
      case True
      from in_range have "first_from (ends_rest P) lines i (skip_to (ends_rest P) lines i)"
        by (simp add: skip_to_first_from)
      with "1.hyps"(1) [OF in_range True refl] "1.prems" in_range True show ?thesis
        by (auto simp add: blocks_anchor)
    next
      case False
      with "1.hyps"(2) [OF in_range False] "1.prems" in_range show ?thesis
        by (simp add: blocks_copy)
    qed
  qed
qed

subsection \<open>The output in terms of the blocks\<close>

lemma gaps_copy:
  "i < length lines \<Longrightarrow> ordered_from (i + 1) bs \<Longrightarrow> gaps lines i bs = lines ! i # gaps lines (i + 1) bs"
proof (cases bs)
  case Nil
  assume "i < length lines"
  with Nil show ?thesis by (simp add: Cons_nth_drop_Suc)
next
  case (Cons b bs')
  assume i: "i < length lines" and o: "ordered_from (i + 1) bs"
  obtain s e where b: "b = (s, e)" by (cases b)
  from o Cons b have "i + 1 \<le> s" by simp
  then obtain d where d: "s - i = Suc d" "s - (i + 1) = d" by (cases "s - i") auto
  from i have "drop i lines = lines ! i # drop (i + 1) lines" by (simp add: Cons_nth_drop_Suc)
  with Cons b d show ?thesis by simp
qed

lemma scan_found:
  "found_first_route s \<Longrightarrow>
   new_lines (scan_loop P lines s) = new_lines s @ gaps lines (idx s) (blocks P lines (idx s) True)"
proof (induction P lines s rule: scan_loop.induct)
  case (1 P lines s)
  show ?case
  proof (cases "idx s < length lines")
    case False
    then show ?thesis by (simp add: scan_loop_done blocks_done)
  next
    case in_range: True
    show ?thesis
    proof (cases "anchor_at P lines (idx s)")
      case True
      let ?s' = "loop_body P lines s"
      from True "1.prems" have s': "found_first_route ?s'" "new_lines ?s' = new_lines s"
        "idx ?s' = skip_to (ends_rest P) lines (idx s) + 1"
        by (simp_all add: loop_body_def)
      from "1.IH" [OF in_range s'(1)] s' in_range True "1.prems" show ?thesis
        by (simp add: scan_loop_step blocks_anchor)
    next
      case False
      let ?s' = "loop_body P lines s"
      from False "1.prems" have s': "found_first_route ?s'" "new_lines ?s' = new_lines s @ [lines ! idx s]"
        "idx ?s' = idx s + 1"
        by (simp_all add: loop_body_def)
      from "1.IH" [OF in_range s'(1)] s' in_range False
        gaps_copy [OF in_range blocks_ordered [of "idx s + 1" P lines True]]
      show ?thesis
        by (simp add: scan_loop_step blocks_copy)
    qed
  qed
qed

lemma scan_fresh:
  "\<not> found_first_route s \<Longrightarrow>
   new_lines (scan_loop P lines s) =
     new_lines s @
       (case blocks P lines (idx s) False of
          [] \<Rightarrow> drop (idx s) lines
        | (a, e) # bs \<Rightarrow> take (a - idx s) (drop (idx s) lines) @ template P @ gaps lines (e + 1) bs)"
proof (induction P lines s rule: scan_loop.induct)
  case (1 P lines s)
  show ?case
  proof (cases "idx s < length lines")
    case False
    then show ?thesis by (simp add: scan_loop_done blocks_done)
  next
    case in_range: True
    show ?thesis
    proof (cases "anchor_at P lines (idx s)")
      case True
      let ?s' = "loop_body P lines s"
      from True "1.prems" have s': "found_first_route ?s'" "new_lines ?s' = new_lines s @ template P"
        "idx ?s' = skip_to (ends_first P) lines (idx s) + 1"
        by (simp_all add: loop_body_def)
      from scan_found [OF s'(1), of P lines] s' in_range True "1.prems" show ?thesis
        by (simp add: scan_loop_step blocks_anchor)
    next
      case False
      let ?s' = "loop_body P lines s"
      from False "1.prems" have s': "\<not> found_first_route ?s'" "new_lines ?s' = new_lines s @ [lines ! idx s]"
        "idx ?s' = idx s + 1"
        by (simp_all add: loop_body_def)
      have step: "new_lines (scan_loop P lines s) = new_lines (scan_loop P lines ?s')"
        using in_range by (simp add: scan_loop_step)
      have bl: "blocks P lines (idx s) False = blocks P lines (idx s + 1) False"
        using in_range False by (simp add: blocks_copy)
      show ?thesis
      proof (cases "blocks P lines (idx s + 1) False")
        case Nil
        with "1.IH" [OF in_range s'(1)] s' step bl in_range show ?thesis
          by (simp add: Cons_nth_drop_Suc)
      next
        case (Cons b bs)
        obtain a e where b: "b = (a, e)" by (cases b)
        from blocks_ordered [of "idx s + 1" P lines False] Cons b have "idx s + 1 \<le> a" by simp
        then obtain d where d: "a - idx s = Suc d" "a - (idx s + 1) = d" by (cases "a - idx s") auto
        from in_range have "drop (idx s) lines = lines ! idx s # drop (idx s + 1) lines"
          by (simp add: Cons_nth_drop_Suc)
        with "1.IH" [OF in_range s'(1)] s' step bl Cons b d show ?thesis by simp
      qed
    qed
  qed
qed

lemma patch_blocks:
  "patch P lines =
     (case blocks P lines 0 False of
        [] \<Rightarrow> lines
      | (a, e) # bs \<Rightarrow> take a lines @ template P @ gaps lines (e + 1) bs)"
proof -
  have "\<not> found_first_route init" "idx init = 0" "new_lines init = []"
    by (simp_all add: init_def)
  with scan_fresh [of init P lines] show ?thesis
    by (simp add: patch_def split: list.split)
qed

subsection \<open>Kept positions\<close>







lemma gaps_subseq: "ordered_from k bs \<Longrightarrow> subseq (gaps lines k bs) (drop k lines)"
proof (induction bs arbitrary: k)
  case Nil
  then show ?case by simp
next
  case (Cons b bs)
  obtain s e where b: "b = (s, e)" by (cases b)
  from Cons.prems b have ord: "k \<le> s" "s \<le> e" "ordered_from (e + 1) bs" by simp_all
  from Cons.IH [OF ord(3)] have ih: "subseq (gaps lines (e + 1) bs) (drop (e + 1) lines)" .
  have "drop (e + 1) lines = drop (e + 1 - s) (drop s lines)" using ord(2) by simp
  then have "subseq (drop (e + 1) lines) (drop s lines)"
    by (metis append_take_drop_id list_emb_append2 subseq_order.order_refl)
  with ih have r: "subseq (gaps lines (e + 1) bs) (drop s lines)"
    using subseq_order.order_trans by blast
  have "drop k lines = take (s - k) (drop k lines) @ drop s lines"
    using ord(1) by (metis append_take_drop_id drop_drop le_add_diff_inverse2)
  moreover have "subseq (take (s - k) (drop k lines) @ gaps lines (e + 1) bs)
      (take (s - k) (drop k lines) @ drop s lines)"
    using r by (simp add: list_emb_append_mono)
  ultimately show ?case using b by simp
qed

subsection \<open>Counting iterations\<close>

lemma scan_loop_iterates:
  "\<exists>k \<le> length lines - idx s.
     length lines \<le> idx ((loop_body P lines ^^ k) s) \<and>
     (\<forall>m < k. idx ((loop_body P lines ^^ m) s) < length lines) \<and>
     scan_loop P lines s = (loop_body P lines ^^ k) s"
proof (induction P lines s rule: scan_loop.induct)
  case (1 P lines s)
  show ?case
  proof (cases "idx s < length lines")
    case False
    then have "length lines \<le> idx ((loop_body P lines ^^ 0) s) \<and>
        (\<forall>m < 0. idx ((loop_body P lines ^^ m) s) < length lines) \<and>
        scan_loop P lines s = (loop_body P lines ^^ 0) s"
      by (simp add: scan_loop_done)
    then show ?thesis by blast
  next
    case True
    let ?s' = "loop_body P lines s"
    from "1.IH" [OF True] obtain k where k: "k \<le> length lines - idx ?s'"
      "length lines \<le> idx ((loop_body P lines ^^ k) ?s')"
      "\<forall>m < k. idx ((loop_body P lines ^^ m) ?s') < length lines"
      "scan_loop P lines ?s' = (loop_body P lines ^^ k) ?s'"
      by blast
    have swap: "(loop_body P lines ^^ Suc m) s = (loop_body P lines ^^ m) ?s'" for m
      by (simp add: funpow_swap1)
    have "Suc k \<le> length lines - idx s"
      using k(1) idx_loop_body [of s P lines] True by simp
    moreover have "length lines \<le> idx ((loop_body P lines ^^ Suc k) s)"
      using k(2) by (simp only: swap)
    moreover have "\<forall>m < Suc k. idx ((loop_body P lines ^^ m) s) < length lines"
    proof (intro allI impI)
      fix m assume m: "m < Suc k"
      show "idx ((loop_body P lines ^^ m) s) < length lines"
      proof (cases m)
        case 0
        with True show ?thesis by simp
      next
        case (Suc m')
        with m k(3) have "idx ((loop_body P lines ^^ m') ?s') < length lines" by simp
        with Suc show ?thesis by (simp only: swap)
      qed
    qed
    moreover have "scan_loop P lines s = (loop_body P lines ^^ Suc k) s"
      using k(4) True by (simp only: swap scan_loop_step)
    ultimately show ?thesis by blast
  qed
qed

lemma idx_funpow_less: "m < k \<Longrightarrow> idx ((loop_body P lines ^^ m) s) < idx ((loop_body P lines ^^ k) s)"
proof (induction k)
  case 0
  then show ?case by simp
next
  case (Suc k)
  have step: "idx ((loop_body P lines ^^ k) s) < idx ((loop_body P lines ^^ Suc k) s)"
    using idx_loop_body [of "(loop_body P lines ^^ k) s" P lines] by simp
  show ?case
  proof (cases "m = k")
    case True
    with step show ?thesis by simp
  next
    case False
    with Suc have "idx ((loop_body P lines ^^ m) s) < idx ((loop_body P lines ^^ k) s)" by simp
    with step show ?thesis by simp
  qed
qed

lemma exits_after_iff:
  "exits_after P lines k \<longleftrightarrow>
     length lines \<le> idx ((loop_body P lines ^^ k) init) \<and>
     (\<forall>m < k. idx ((loop_body P lines ^^ m) init) < length lines)"
  by (auto simp add: exits_after_def)

lemma exits_after_unique: "exits_after P lines k \<Longrightarrow> exits_after P lines k' \<Longrightarrow> k = k'"
proof (rule ccontr)
  assume e: "exits_after P lines k" "exits_after P lines k'" and ne: "k \<noteq> k'"
  then consider "k < k'" | "k' < k" by linarith
  then show False
  proof cases
    case 1
    with e show False unfolding exits_after_iff by (metis not_le)
  next
    case 2
    with e show False unfolding exits_after_iff by (metis not_le)
  qed
qed

lemma scan_loop_reach:
  "idx ((loop_body P lines ^^ k) s) < length lines \<Longrightarrow>
   scan_loop P lines s = scan_loop P lines ((loop_body P lines ^^ Suc k) s)"
proof (induction k)
  case 0
  then show ?case by (simp add: scan_loop_step)
next
  case (Suc k)
  let ?t = "(loop_body P lines ^^ Suc k) s"
  from idx_funpow_less [of k "Suc k" P lines s] Suc.prems
  have "idx ((loop_body P lines ^^ k) s) < length lines" by simp
  with Suc.IH have "scan_loop P lines s = scan_loop P lines ?t" by simp
  also have "\<dots> = scan_loop P lines (loop_body P lines ?t)"
    using Suc.prems by (rule scan_loop_step)
  finally show ?case by simp
qed

lemma patch_without_anchor:
  assumes "\<forall>i < length lines. \<not> anchor_at P lines i"
  shows "patch P lines = lines"
proof -
  have "blocks P lines 0 False = blocks P lines (length lines) False"
    using assms blocks_skip [of 0 "length lines" lines P False] by simp
  then have "blocks P lines 0 False = []" by (simp add: blocks_done)
  then show ?thesis by (simp add: patch_blocks)
qed

section \<open>The claims\<close>

subsection \<open>C1: an anchor without a terminator\<close>

text \<open>
  C1 as stated: when an anchor is matched and no line at or after it satisfies the
  terminator, the patch fails with an UnresolvedBlock error and produces no output. The code
  has no such failure. In \<open>unresolved_file\<close> the anchor test holds at position 2 and the
  inner loop runs to the end of the list; the scan returns the two lines before the anchor
  followed by the inserted block, and the lines \<open>a\<close> and \<open>b\<close> are gone.
\<close>

theorem unresolved_block_counterexample:
  "anchor_at script_patterns unresolved_file 2 \<and>
   skip_to (ends_first script_patterns) unresolved_file 2 = length unresolved_file \<and>
   fix_orders unresolved_file =
     [''x\<newline>'', ''// Get all orders\<newline>''] @ filtered_route"
  by code_simp

text \<open>
  C1 as the code has it: when the scan reaches, after some number of runs of the loop body,
  a position past the first where the anchor test holds, and no line from there on passes
  the terminator test of that occurrence (\<open>ends_first\<close> when no anchor was met before,
  \<open>ends_rest\<close> otherwise), the scan ends normally. Its output is what had been emitted up
  to then, followed by the inserted block if this is the first anchor; no line from the
  anchor on is copied.
\<close>

theorem unresolved_block_drops_rest:
  assumes "s = (loop_body P lines ^^ k) init"
    and "0 < idx s" and "idx s < length lines"
    and "anchor_at P lines (idx s)"
    and "\<forall>j. idx s \<le> j \<and> j < length lines \<longrightarrow>
           \<not> (if found_first_route s then ends_rest P else ends_first P) (lines ! j)"
  shows "patch P lines = new_lines s @ (if found_first_route s then [] else template P)"
proof -
  let ?t = "if found_first_route s then ends_rest P else ends_first P"
  have skip: "skip_to ?t lines (idx s) = length lines"
    using assms(3,5) skip_to_none [of "idx s" lines ?t] by simp
  let ?s' = "loop_body P lines s"
  have s': "idx ?s' = length lines + 1"
    "new_lines ?s' = new_lines s @ (if found_first_route s then [] else template P)"
    using assms(4) skip by (simp_all add: loop_body_def split: if_splits)
  have "scan_loop P lines init = scan_loop P lines ?s'"
    using scan_loop_reach [where P = P and lines = lines and k = k and s = init] assms(1,3) by simp
  also have "\<dots> = ?s'" using s'(1) by (simp add: scan_loop_done)
  finally show ?thesis using s'(2) by (simp add: patch_def)
qed

theorem unresolved_block_drops_rest_witness:
  "idx ((loop_body script_patterns unresolved_file ^^ 2) init) = 2 \<and>
   anchor_at script_patterns unresolved_file 2 \<and>
   patch script_patterns unresolved_file =
     new_lines ((loop_body script_patterns unresolved_file ^^ 2) init) @ template script_patterns"
proof -
  let ?s = "(loop_body script_patterns unresolved_file ^^ 2) init"
  have i: "idx ?s = 2" by code_simp
  have f: "\<not> found_first_route ?s" by code_simp
  have a: "anchor_at script_patterns unresolved_file 2" by code_simp
  have len: "length unresolved_file = 5" by (simp add: unresolved_file_def)
  have none: "\<not> ends_first script_patterns (unresolved_file ! 2)"
    "\<not> ends_first script_patterns (unresolved_file ! 3)"
    "\<not> ends_first script_patterns (unresolved_file ! 4)"
    by code_simp+
  have h2: "0 < idx ?s" unfolding i by simp
  have h3: "idx ?s < length unresolved_file" unfolding i len by simp
  have h4: "anchor_at script_patterns unresolved_file (idx ?s)" unfolding i by (rule a)
  have h5: "\<forall>j. idx ?s \<le> j \<and> j < length unresolved_file \<longrightarrow>
      \<not> (if found_first_route ?s then ends_rest script_patterns else ends_first script_patterns)
          (unresolved_file ! j)"
  proof (intro allI impI)
    fix j assume "idx ?s \<le> j \<and> j < length unresolved_file"
    then have "2 \<le> j \<and> j < 5" unfolding i len .
    then have "j = 2 \<or> j = 3 \<or> j = 4" by arith
    with none have "\<not> ends_first script_patterns (unresolved_file ! j)" by blast
    with f show "\<not> (if found_first_route ?s then ends_rest script_patterns
        else ends_first script_patterns) (unresolved_file ! j)"
      by simp
  qed
  have "patch script_patterns unresolved_file =
      new_lines ?s @ (if found_first_route ?s then [] else template script_patterns)"
    by (rule unresolved_block_drops_rest [OF refl h2 h3 h4 h5])
  with f have "patch script_patterns unresolved_file = new_lines ?s @ template script_patterns"
    by simp
  with i a show ?thesis by blast
qed

subsection \<open>C2: one match\<close>

text \<open>
  C2 as stated: with exactly one anchor match and a terminator, the output is the lines
  strictly before the marker line, the template, and the lines strictly after the
  terminator. In \<open>single_route_file\<close> the only anchor is at position 2 (marker line 1,
  signature line 2) and the terminator is line 3, but the output is not line 0, the
  inserted block and line 4: the marker line is in it too.
\<close>

theorem single_match_counterexample:
  "anchor_at script_patterns single_route_file 2 \<and>
   \<not> anchor_at script_patterns single_route_file 0 \<and>
   \<not> anchor_at script_patterns single_route_file 1 \<and>
   \<not> anchor_at script_patterns single_route_file 3 \<and>
   \<not> anchor_at script_patterns single_route_file 4 \<and>
   skip_to (ends_first script_patterns) single_route_file 2 = 3 \<and>
   fix_orders single_route_file \<noteq>
     take 1 single_route_file @ filtered_route @ drop 4 single_route_file"
  by code_simp

text \<open>
  C2 as the code has it: when the anchor test holds at exactly one position \<open>a\<close>, not the
  first, and \<open>j\<close> is the first position from \<open>a\<close> on whose line passes \<open>ends_first\<close>,
  the output is the lines strictly before the signature line \<open>a\<close> (the marker line
  \<open>a - 1\<close> among them), the template, and the lines strictly after line \<open>j\<close>.
\<close>

theorem single_match_keeps_marker:
  assumes "0 < a" and "a < length lines"
    and "\<forall>i < length lines. anchor_at P lines i \<longleftrightarrow> i = a"
    and "a \<le> j" and "j < length lines" and "ends_first P (lines ! j)"
    and "\<forall>k. a \<le> k \<and> k < j \<longrightarrow> \<not> ends_first P (lines ! k)"
  shows "patch P lines = take a lines @ template P @ drop (j + 1) lines"
proof -
  have skip: "skip_to (ends_first P) lines a = j"
    using assms(4-7) by (rule skip_to_first)
  have anchor: "anchor_at P lines a" and before: "\<forall>k < a. \<not> anchor_at P lines k"
    using assms(2,3) by auto
  have "blocks P lines (j + 1) True = blocks P lines (length lines) True"
    using assms(3,4,5) blocks_skip [of "j + 1" "length lines" lines P True] by auto
  then have "blocks P lines (j + 1) True = []" by (simp add: blocks_done)
  with blocks_first [OF assms(2) anchor before] skip
  have "blocks P lines 0 False = [(a, j)]" by simp
  then show ?thesis by (simp add: patch_blocks)
qed

theorem single_match_keeps_marker_witness:
  "patch script_patterns single_route_file =
     take 2 single_route_file @ template script_patterns @ drop (3 + 1) single_route_file"
proof -
  have len: "length single_route_file = 5" by (simp add: single_route_file_def)
  have an: "anchor_at script_patterns single_route_file 2"
    "\<not> anchor_at script_patterns single_route_file 0"
    "\<not> anchor_at script_patterns single_route_file 1"
    "\<not> anchor_at script_patterns single_route_file 3"
    "\<not> anchor_at script_patterns single_route_file 4"
    by code_simp+
  have h3: "\<forall>i < length single_route_file. anchor_at script_patterns single_route_file i \<longleftrightarrow> i = 2"
  proof (intro allI impI)
    fix i assume "i < length single_route_file"
    then have "i < 5" unfolding len .
    then have "i = 0 \<or> i = 1 \<or> i = 2 \<or> i = 3 \<or> i = 4" by arith
    with an show "anchor_at script_patterns single_route_file i \<longleftrightarrow> i = 2" by auto
  qed
  have h6: "ends_first script_patterns (single_route_file ! 3)" by code_simp
  have n2: "\<not> ends_first script_patterns (single_route_file ! 2)" by code_simp
  have h7: "\<forall>k. 2 \<le> k \<and> k < 3 \<longrightarrow> \<not> ends_first script_patterns (single_route_file ! k)"
  proof (intro allI impI)
    fix k :: nat assume "2 \<le> k \<and> k < 3"
    then have "k = 2" by arith
    with n2 show "\<not> ends_first script_patterns (single_route_file ! k)" by simp
  qed
  show ?thesis
    by (rule single_match_keeps_marker [OF _ _ h3 _ _ h6 h7]) (simp_all add: len)
qed

subsection \<open>C3: several matches\<close>




subsection \<open>C4: the scenario\<close>

text \<open>
  C4 as stated: on the scenario the patch returns \<open>X\<close>, the first marker, \<open>T1\<close>, \<open>T2\<close>
  and \<open>Y\<close>. It does not.
\<close>

theorem scenario_counterexample:
  "patch scenario_patterns scenario_lines \<noteq>
     [''X\<newline>'', ''// marker\<newline>'', ''T1\<newline>'', ''T2\<newline>'', ''Y\<newline>'']"
  by code_simp

text \<open>
  C4 as the code has it: on the scenario the patch returns \<open>X\<close>, the first marker, \<open>T1\<close>,
  \<open>T2\<close>, the second marker and \<open>Y\<close>. The second marker line was copied before the scan
  reached the second signature line, and nothing is taken back from the output.
\<close>

theorem scenario_keeps_second_marker:
  "patch scenario_patterns scenario_lines =
     [''X\<newline>'', ''// marker\<newline>'', ''T1\<newline>'', ''T2\<newline>'', ''// marker\<newline>'',
      ''Y\<newline>'']"
  by code_simp

subsection \<open>C5: position 0\<close>

text \<open>
  C5: a block starts at a position only if the position is not the first and the line
  before it is a marker line; the first position never starts a block. The test of line 17
  reads \<open>lines[i-1]\<close> without asking for \<open>i > 0\<close>, and at \<open>i = 0\<close> that is the last
  line. In \<open>trailing_comment_file\<close> the first line is a signature line and the last is a
  marker line: a block starts at position 0, and the first two lines are replaced by the
  inserted block.
\<close>

theorem position_zero_reads_last_line:
  "anchor_at script_patterns trailing_comment_file 0 \<and>
   blocks script_patterns trailing_comment_file 0 False = [(0, 1)] \<and>
   fix_orders trailing_comment_file = filtered_route @ [''// Get all orders\<newline>'']"
  by code_simp

subsection \<open>C6: the terminator\<close>

text \<open>
  C6 as stated: one terminator test ends the first block and every later one. In
  \<open>two_route_file\<close> the first block runs over line 3 and ends at line 4, and the second
  runs over line 7 and ends at line 8, while line 3 equals line 8 and line 4 equals line 7:
  no test of single lines ends both blocks where they end.
\<close>

theorem shared_terminator_counterexample:
  "blocks script_patterns two_route_file 0 False = [(2, 4), (6, 8)] \<and>
   two_route_file ! 3 = two_route_file ! 8 \<and>
   two_route_file ! 4 = two_route_file ! 7"
  by code_simp

text \<open>
  C6 as the code has it: the last line of the first block is the first line from its anchor
  on that passes \<open>ends_first\<close> (in the script: contains \<open>.toArray();\<close>), and the last line
  of every later block is the first line from its anchor on that passes \<open>ends_rest\<close> (in
  the script: contains \<open>});\<close>); a block with no such line runs to the end of the input.
\<close>

theorem terminator_depends_on_occurrence:
  assumes "blocks P lines 0 False = (s1, e1) # rest" and "0 < s1"
  shows "first_from (ends_first P) lines s1 e1 \<and>
         (\<forall>(s, e) \<in> set rest. first_from (ends_rest P) lines s e)"
proof -
  have s1: "s1 < length lines" using blocks_start [of "(s1, e1)" P lines 0 False] assms(1) by simp
  have "blocks P lines 0 False \<noteq> blocks P lines (length lines) False"
    using assms(1) by (simp add: blocks_done)
  obtain a where a: "a < length lines" "anchor_at P lines a" "\<forall>k < a. \<not> anchor_at P lines k"
  proof -
    have "\<exists>a < length lines. anchor_at P lines a"
    proof (rule ccontr)
      assume "\<not> (\<exists>a < length lines. anchor_at P lines a)"
      then have "blocks P lines 0 False = blocks P lines (length lines) False"
        using blocks_skip [of 0 "length lines" lines P False] by auto
      with assms(1) show False by (simp add: blocks_done)
    qed
    then obtain a0 where a0: "a0 < length lines \<and> anchor_at P lines a0" by blast
    define a where "a = (LEAST x. x < length lines \<and> anchor_at P lines x)"
    have "a < length lines \<and> anchor_at P lines a"
      unfolding a_def using a0 by (rule LeastI)
    moreover have "\<forall>k < a. \<not> anchor_at P lines k"
    proof (intro allI impI notI)
      fix k assume k: "k < a" "anchor_at P lines k"
      with \<open>a < length lines \<and> anchor_at P lines a\<close> have "k < length lines \<and> anchor_at P lines k" by simp
      then have "a \<le> k" unfolding a_def by (rule Least_le)
      with k show False by simp
    qed
    ultimately show ?thesis using that by blast
  qed
  from blocks_first [OF a] assms(1)
  have eq: "s1 = a" "e1 = skip_to (ends_first P) lines a"
    "rest = blocks P lines (skip_to (ends_first P) lines a + 1) True"
    by simp_all
  have "first_from (ends_first P) lines s1 e1"
    using a(1) eq by (simp add: skip_to_first_from)
  moreover have "\<forall>(s, e) \<in> set rest. first_from (ends_rest P) lines s e"
    using blocks_rest_first_from [of _ P lines "skip_to (ends_first P) lines a + 1"] eq(3)
    by auto
  ultimately show ?thesis by simp
qed

theorem terminator_depends_on_occurrence_witness:
  "first_from (ends_first script_patterns) two_route_file 2 4 \<and>
   first_from (ends_rest script_patterns) two_route_file 6 8"
proof -
  have b: "blocks script_patterns two_route_file 0 False = (2, 4) # [(6, 8)]" by code_simp
  have p: "0 < (2 :: nat)" by simp
  from terminator_depends_on_occurrence [OF b p] show ?thesis by simp
qed

subsection \<open>C7: no match\<close>

text \<open>
  C7: an input with no anchor match is returned unchanged. Where the anchor test of line 17
  holds at no position, the scan does return its input (\<open>patch_without_anchor\<close>). But the
  test holds at position 0 when the first line is a signature line and the last line is a
  marker line, which is no match of a marker line followed by a signature line. In
  \<open>route_then_comment_file\<close> the only pair of adjacent lines is not an anchor, and the
  output is the inserted block followed by the comment.
\<close>

theorem unmatched_file_is_rewritten:
  "\<not> (is_marker script_patterns (route_then_comment_file ! 0) \<and>
      is_signature script_patterns (route_then_comment_file ! 1)) \<and>
   fix_orders route_then_comment_file = filtered_route @ [''// Get all orders\<newline>''] \<and>
   fix_orders route_then_comment_file \<noteq> route_then_comment_file"
  by code_simp

subsection \<open>C8: termination\<close>

text \<open>
  C8: the scan terminates on every input, and equal inputs give equal outputs. Both loops
  are total functions of their input here, so the output is determined by the input. The
  outer loop leaves after a number of runs of its body that is unique and at most
  \<open>len(lines)\<close>, with \<open>patch\<close> as the output then; an inner loop started at \<open>i\<close> makes
  \<open>skip_to t lines i - i\<close> steps, at most \<open>len(lines) - i\<close>.
\<close>

theorem scan_terminates:
  "(\<exists>k \<le> length lines. exits_after P lines k \<and>
        (\<forall>k'. exits_after P lines k' \<longrightarrow> k' = k) \<and>
        patch P lines = new_lines ((loop_body P lines ^^ k) init)) \<and>
   skip_to t lines i - i \<le> length lines - i"
proof
  have i0: "idx init = 0" by (simp add: init_def)
  from scan_loop_iterates [of lines init P] obtain k where k: "k \<le> length lines - idx init"
    "length lines \<le> idx ((loop_body P lines ^^ k) init)"
    "\<forall>m < k. idx ((loop_body P lines ^^ m) init) < length lines"
    "scan_loop P lines init = (loop_body P lines ^^ k) init"
    by blast
  from k(1) i0 have le: "k \<le> length lines" by simp
  from k(2,3) have ex: "exits_after P lines k" by (simp add: exits_after_iff)
  have uniq: "\<forall>k'. exits_after P lines k' \<longrightarrow> k' = k"
    using ex exits_after_unique by blast
  have out: "patch P lines = new_lines ((loop_body P lines ^^ k) init)"
    using k(4) by (simp add: patch_def)
  from le ex uniq out show "\<exists>k \<le> length lines. exits_after P lines k \<and>
        (\<forall>k'. exits_after P lines k' \<longrightarrow> k' = k) \<and>
        patch P lines = new_lines ((loop_body P lines ^^ k) init)"
    by blast
next
  show "skip_to t lines i - i \<le> length lines - i"
  proof (cases "i \<le> length lines")
    case True
    then show ?thesis using skip_to_le [of i lines t] by simp
  next
    case False
    then show ?thesis by (simp add: skip_to_stop)
  qed
qed

theorem scan_terminates_witness:
  "exits_after script_patterns short_file 2 \<and>
   patch script_patterns short_file =
     new_lines ((loop_body script_patterns short_file ^^ 2) init)"
proof -
  have e: "exits_after script_patterns short_file 2" by code_simp
  from scan_terminates [where P = script_patterns and lines = short_file and t = "\<lambda>l. True" and i = 0]
  obtain k where k: "\<forall>k'. exits_after script_patterns short_file k' \<longrightarrow> k' = k"
    "patch script_patterns short_file = new_lines ((loop_body script_patterns short_file ^^ k) init)"
    by blast
  from k(1) e have "k = 2" by blast
  with k(2) e show ?thesis by simp
qed

subsection \<open>C9: failures and the target file\<close>




subsection \<open>C10: what the output is made of\<close>

text \<open>
  C10: every line of the output is a line of the input or of the template; the input lines
  in it keep their order and come from distinct positions, and the template is in it at
  most once, as one run. The output is \<open>pre @ post\<close> or \<open>pre @ template @ post\<close>, where
  \<open>pre @ post\<close> is a subsequence of the input.
\<close>

theorem output_is_input_subsequence_plus_template:
  "\<exists>pre post. subseq (pre @ post) lines \<and>
     (patch P lines = pre @ post \<or> patch P lines = pre @ template P @ post)"
proof (cases "blocks P lines 0 False")
  case Nil
  then have "patch P lines = lines @ []" by (simp add: patch_blocks)
  moreover have "subseq (lines @ []) lines" by simp
  ultimately show ?thesis by blast
next
  case (Cons b bs)
  obtain a e where b: "b = (a, e)" by (cases b)
  from blocks_ordered [of 0 P lines False] Cons b have ord: "a \<le> e" "ordered_from (e + 1) bs"
    by simp_all
  let ?pre = "take a lines" and ?post = "gaps lines (e + 1) bs"
  have "subseq ?post (drop (e + 1) lines)" using ord(2) by (rule gaps_subseq)
  moreover have "subseq (drop (e + 1) lines) (drop a lines)"
  proof -
    have "drop (e + 1) lines = drop (e + 1 - a) (drop a lines)" using ord(1) by simp
    then show ?thesis by (metis append_take_drop_id list_emb_append2 subseq_order.order_refl)
  qed
  ultimately have "subseq ?post (drop a lines)" using subseq_order.order_trans by blast
  then have "subseq (?pre @ ?post) (?pre @ drop a lines)"
    by (intro list_emb_append_mono) simp_all
  then have "subseq (?pre @ ?post) lines" by simp
  moreover have "patch P lines = ?pre @ template P @ ?post" using Cons b by (simp add: patch_blocks)
  ultimately show ?thesis by blast
qed

end
